theory Spec2Isabelle
  imports Main
begin

section \<open>jive.conc.Promise: a single-fire result container on an observable\<close>

text \<open>
  The development embeds \<^verbatim>\<open>src/conc/promise.js\<close>. The constructor's private variables
  (\<^verbatim>\<open>hasFired\<close>, \<^verbatim>\<open>cancelled\<close>, \<^verbatim>\<open>timeoutDuration\<close>, \<^verbatim>\<open>timer\<close>) become fields of a record that
  every method takes and returns. The record also holds the listener table of the observable
  mixed into the promise, the queue of the host's timer facility, and two logs that only
  record what happened: the calls of \<^verbatim>\<open>emit\<close> and the invocations of listeners.
\<close>

subsection \<open>Values, listeners and calls\<close>

text \<open>
  JavaScript values as far as the promise looks at them: \<^verbatim>\<open>undefined\<close>, numbers (integers
  only: the promise does no arithmetic on them), strings, and \<^verbatim>\<open>new Error(msg)\<close>.
\<close>

datatype val = Undefined | Num int | Str string | ErrorObj string

text \<open>
  A listener is a JavaScript function. Its body is modelled as a straight-line script of
  calls on the promise it listens to, which is what makes re-entrant calls expressible;
  \<open>Throw\<close> is a \<^verbatim>\<open>throw\<close> statement. The number identifies the listener in the
  invocation log.
\<close>

datatype call =
    AddCallback listener
  | AddErrback listener
  | AddCancelback listener
  | EmitSuccess "val list"
  | EmitError "val list"
  | Cancel
  | Timeout val
  | Throw val
and listener = Listener (lid: nat) (body: "call list")

text \<open>
  The invocation of a listener: the listener, the event's name and the event's arguments.
\<close>

type_synonym invocation = "listener \<times> string \<times> val list"

text \<open>
  Work that is still to be done. \<open>Run\<close> is a sequence of statements: a turn of the
  caller's code, or the rest of a listener's body. \<open>Notify\<close> holds the listeners that an
  emission has still to invoke. \<open>Fire\<close> is the host firing the timer with that handle.
\<close>

datatype frame =
    Run "call list"
  | Notify "invocation list"
  | Fire nat

text \<open>What a method returns: the receiver (\<^verbatim>\<open>return this\<close>) or a value.\<close>

datatype ret = This | Value val

record pstate =
  hasFired :: bool
  cancelled :: bool
  timeoutDuration :: val
  timer :: "nat option"
  listeners :: "string \<Rightarrow> listener list"
  pending :: "(nat \<times> val) list"
  next_handle :: nat
  emitted :: "(string \<times> val list) list"
  delivered :: "(nat \<times> string \<times> val list) list"

text \<open>
  \<^verbatim>\<open>new jive.conc.Promise()\<close>: both flags false, \<^verbatim>\<open>timeoutDuration\<close> and \<^verbatim>\<open>timer\<close> undefined
  (\<open>timer\<close> is \<open>None\<close> for both \<^verbatim>\<open>undefined\<close> and \<^verbatim>\<open>null\<close>: the code only tests its
  truthiness), no listener, no timer scheduled. The host numbers its timers from 1.
\<close>

definition Promise :: pstate where
  "Promise = \<lparr> hasFired = False, cancelled = False, timeoutDuration = Undefined,
     timer = None, listeners = (\<lambda>name. []), pending = [], next_handle = 1,
     emitted = [], delivered = [] \<rparr>"

subsection \<open>The observable\<close>

text \<open>
  \<^verbatim>\<open>promise.js\<close> requires \<^verbatim>\<open>jive.conc.observable\<close> and mixes it into the promise
  (\<^verbatim>\<open>jive.conc.observable(this)\<close>), but the observable is not among the sources. Its three
  operations are modelled from the spec. Its listener table, the field \<open>listeners\<close>, maps an
  event name to the ordered sequence of the callbacks registered for it; a name without
  listeners maps to the empty sequence.
\<close>

text \<open>
  Modelled from the spec: \<^verbatim>\<open>addListener(eventName, callback)\<close> of the missing observable.
  The spec: the callback is appended to the end of that event's list; duplicates are
  allowed; there is no error condition.
\<close>

definition addListener :: "string \<Rightarrow> listener \<Rightarrow> pstate \<Rightarrow> pstate" where
  "addListener name l s = s\<lparr> listeners := (listeners s)(name := listeners s name @ [l]) \<rparr>"

text \<open>
  Modelled from the spec: \<^verbatim>\<open>removeListener(eventName)\<close> of the missing observable. The
  spec: it clears all listeners registered for the event, the whole list and not a single
  callback.
\<close>

definition removeListener :: "string \<Rightarrow> pstate \<Rightarrow> pstate" where
  "removeListener name s = s\<lparr> listeners := (listeners s)(name := []) \<rparr>"

text \<open>
  Modelled from the spec: \<^verbatim>\<open>emit(eventName, ...args)\<close> of the missing observable. The spec:
  it invokes every currently registered listener of the event, in registration order,
  synchronously, each receiving the arguments; emitting an event without listeners is a
  no-op; a listener that throws must not prevent the remaining listeners of the same emit
  from running (each invocation is isolated). \<open>emit\<close> returns the invocations it makes,
  in the order it makes them, and logs the emission. The machine below runs them at once,
  each in a frame of its own, before anything else: that is the synchronous, isolated
  fan-out. What becomes of the exception of a listener is left open by the spec; here it
  is dropped.
\<close>

definition emit :: "string \<Rightarrow> val list \<Rightarrow> pstate \<Rightarrow> invocation list \<times> pstate" where
  "emit name args s =
     (map (\<lambda>l. (l, name, args)) (listeners s name),
      s\<lparr> emitted := emitted s @ [(name, args)] \<rparr>)"

subsection \<open>The host's timers\<close>

text \<open>
  \<^verbatim>\<open>setTimeout\<close> and \<^verbatim>\<open>clearTimeout\<close> of the host. A scheduled timer is a handle with its
  delay; all timers of one promise run the same callback, so the queue does not store it.
  Time itself is not modelled: the host may fire any scheduled timer at any moment (the
  frame \<open>Fire\<close> below), which covers every order in which the delays can expire.
\<close>

definition setTimeout :: "val \<Rightarrow> pstate \<Rightarrow> nat \<times> pstate" where
  "setTimeout delay s =
     (next_handle s,
      s\<lparr> pending := pending s @ [(next_handle s, delay)],
         next_handle := Suc (next_handle s) \<rparr>)"

definition clearTimeout :: "nat \<Rightarrow> pstate \<Rightarrow> pstate" where
  "clearTimeout h s = s\<lparr> pending := filter (\<lambda>p. fst p \<noteq> h) (pending s) \<rparr>"

subsection \<open>The methods of the promise\<close>

text \<open>
  \<^verbatim>\<open>addCallback\<close>, \<^verbatim>\<open>addErrback\<close>, \<^verbatim>\<open>addCancelback\<close> (lines 123 to 153 of \<^verbatim>\<open>promise.js\<close>):
  \<^verbatim>\<open>this.addListener(name, listener); return this\<close>.
\<close>

definition addCallback :: "listener \<Rightarrow> pstate \<Rightarrow> ret \<times> pstate" where
  "addCallback l s = (This, addListener ''success'' l s)"

definition addErrback :: "listener \<Rightarrow> pstate \<Rightarrow> ret \<times> pstate" where
  "addErrback l s = (This, addListener ''error'' l s)"

definition addCancelback :: "listener \<Rightarrow> pstate \<Rightarrow> ret \<times> pstate" where
  "addCancelback l s = (This, addListener ''cancel'' l s)"

text \<open>
  \<^verbatim>\<open>emitSuccess\<close> and \<^verbatim>\<open>emitError\<close> (lines 165 to 189): under the guard \<^verbatim>\<open>!hasFired\<close>, first
  \<^verbatim>\<open>hasFired = true\<close>, then the call of \<^verbatim>\<open>emit\<close> with the event's name and the arguments.
\<close>

definition emitSuccess :: "val list \<Rightarrow> pstate \<Rightarrow> invocation list \<times> pstate" where
  "emitSuccess eventArgs s =
     (if \<not> hasFired s then emit ''success'' eventArgs (s\<lparr> hasFired := True \<rparr>)
      else ([], s))"

definition emitError :: "val list \<Rightarrow> pstate \<Rightarrow> invocation list \<times> pstate" where
  "emitError eventArgs s =
     (if \<not> hasFired s then emit ''error'' eventArgs (s\<lparr> hasFired := True \<rparr>)
      else ([], s))"

text \<open>
  \<^verbatim>\<open>emitCancel\<close> (lines 191 to 194) emits \<^verbatim>\<open>cancel\<close> with its arguments, without a guard.
  \<^verbatim>\<open>cancel\<close> (lines 210 to 217): under the guard \<^verbatim>\<open>!cancelled\<close>, \<^verbatim>\<open>cancelled = true\<close>, the
  two calls of \<^verbatim>\<open>removeListener\<close>, then \<^verbatim>\<open>emitCancel()\<close>.
\<close>

definition emitCancel :: "val list \<Rightarrow> pstate \<Rightarrow> invocation list \<times> pstate" where
  "emitCancel eventArgs s = emit ''cancel'' eventArgs s"

definition cancel :: "pstate \<Rightarrow> invocation list \<times> pstate" where
  "cancel s =
     (if \<not> cancelled s
      then emitCancel []
             (removeListener ''error'' (removeListener ''success'' (s\<lparr> cancelled := True \<rparr>)))
      else ([], s))"

text \<open>
  The function given to \<^verbatim>\<open>setTimeout\<close> in \<^verbatim>\<open>timeout\<close> (lines 249 to 254):
  \<^verbatim>\<open>timer = null\<close>, then \<^verbatim>\<open>self.emitError(new Error('timeout'))\<close> under the guard
  \<^verbatim>\<open>!hasFired && !cancelled\<close>.
\<close>

definition timer_callback :: "pstate \<Rightarrow> invocation list \<times> pstate" where
  "timer_callback s =
     (let s1 = s\<lparr> timer := None \<rparr>
      in if \<not> hasFired s1 \<and> \<not> cancelled s1 then emitError [ErrorObj ''timeout''] s1
         else ([], s1))"

text \<open>
  \<^verbatim>\<open>timeout\<close> (lines 238 to 257). Without an argument the parameter is \<^verbatim>\<open>undefined\<close> and
  the method returns \<^verbatim>\<open>timeoutDuration\<close>. Otherwise it records the delay, clears the stored
  timer if there is one, schedules the new one, stores its handle and returns \<^verbatim>\<open>this\<close>.
  \<^verbatim>\<open>if (timer)\<close> tests the handle's truthiness: a handle is a number, truthy unless 0.
\<close>

definition timeout :: "val \<Rightarrow> pstate \<Rightarrow> ret \<times> pstate" where
  "timeout t s =
     (if t = Undefined then (Value (timeoutDuration s), s)
      else
        let s1 = s\<lparr> timeoutDuration := t \<rparr>;
            s2 = (case timer s1 of
                    Some h \<Rightarrow> if h \<noteq> 0 then (clearTimeout h s1)\<lparr> timer := None \<rparr> else s1
                  | None \<Rightarrow> s1);
            (h, s3) = setTimeout (timeoutDuration s2) s2
        in (This, s3\<lparr> timer := Some h \<rparr>))"

subsection \<open>Running calls, listeners and timers\<close>

text \<open>
  The host fires a timer: a timer that is still scheduled leaves the queue and its callback
  runs; a handle that was cleared or has fired already does nothing.
\<close>

definition fire :: "nat \<Rightarrow> pstate \<Rightarrow> invocation list \<times> pstate" where
  "fire h s =
     (if h \<in> fst ` set (pending s) then timer_callback (clearTimeout h s)
      else ([], s))"

text \<open>
  One call: the invocations it makes and the new state. A method's return value is
  dropped, as in an expression statement. \<open>Throw\<close> calls nothing; the machine unwinds.
\<close>

fun perform :: "call \<Rightarrow> pstate \<Rightarrow> invocation list \<times> pstate" where
  "perform (AddCallback l) s = ([], snd (addCallback l s))"
| "perform (AddErrback l) s = ([], snd (addErrback l s))"
| "perform (AddCancelback l) s = ([], snd (addCancelback l s))"
| "perform (EmitSuccess eventArgs) s = emitSuccess eventArgs s"
| "perform (EmitError eventArgs) s = emitError eventArgs s"
| "perform Cancel s = cancel s"
| "perform (Timeout t) s = ([], snd (timeout t s))"
| "perform (Throw v) s = ([], s)"

fun is_throw :: "call \<Rightarrow> bool" where
  "is_throw (Throw v) = True"
| "is_throw c = False"

text \<open>Invoking a listener is recorded in the log \<open>delivered\<close>.\<close>

definition invoked :: "invocation \<Rightarrow> pstate \<Rightarrow> pstate" where
  "invoked i s = s\<lparr> delivered := delivered s @ [(lid (fst i), snd i)] \<rparr>"

text \<open>The measure of the work left, for the termination of the machine.\<close>

fun invocation_size :: "invocation \<Rightarrow> nat" where
  "invocation_size (l, name, args) = 2 * length (body l) + 2"

fun frame_size :: "frame \<Rightarrow> nat" where
  "frame_size (Run cs) = 2 * length cs + 1"
| "frame_size (Notify invs) = sum_list (map invocation_size invs) + 1"
| "frame_size (Fire h) = 2"

definition flags_left :: "pstate \<Rightarrow> nat" where
  "flags_left s = (if hasFired s then 0 else 1) + (if cancelled s then 0 else 1)"

text \<open>
  The machine. A turn runs its calls in order; the invocations a call makes run before the
  call returns, each listener in a frame of its own, in the order of the emission. A
  \<^verbatim>\<open>throw\<close> ends the frame it happens in and nothing else: thrown by a listener it is the
  isolated failure of that invocation (the isolation the spec asks of \<^verbatim>\<open>emit\<close>), thrown by
  the caller's code it ends that turn. Every method of \<^verbatim>\<open>promise.js\<close> that emits does so
  in its last statement, so nothing of the method is left to run after the listeners.
\<close>

function exec :: "frame list \<Rightarrow> pstate \<Rightarrow> pstate" where
  "exec [] s = s"
| "exec (Run [] # fs) s = exec fs s"
| "exec (Run (c # cs) # fs) s =
     (if is_throw c then exec fs s
      else case perform c s of (invs, s') \<Rightarrow> exec (Notify invs # Run cs # fs) s')"
| "exec (Notify [] # fs) s = exec fs s"
| "exec (Notify (i # invs) # fs) s = exec (Run (body (fst i)) # Notify invs # fs) (invoked i s)"
| "exec (Fire h # fs) s = (case fire h s of (invs, s') \<Rightarrow> exec (Notify invs # fs) s')"
  by pat_completeness auto
termination
proof (relation "measures [\<lambda>(fs, s). flags_left s, \<lambda>(fs, s). sum_list (map frame_size fs)]")
  show "wf (measures [\<lambda>(fs, s). flags_left s,
                      \<lambda>(fs :: frame list, s). sum_list (map frame_size fs)])"
    by simp
next
  fix c cs fs s invs s'
  assume "(invs, s') = perform c s"
  then have p: "perform c s = (invs, s')" by simp
  have "flags_left s' < flags_left s \<or> (flags_left s' = flags_left s \<and> invs = [])"
    using p
    by (cases c)
       (auto simp: flags_left_def addCallback_def addErrback_def addCancelback_def
          addListener_def removeListener_def emitSuccess_def emitError_def emitCancel_def
          cancel_def emit_def timeout_def setTimeout_def clearTimeout_def Let_def
          split: if_splits option.splits)
  then show "((Notify invs # Run cs # fs, s'), Run (c # cs) # fs, s)
        \<in> measures [\<lambda>(fs, s). flags_left s, \<lambda>(fs, s). sum_list (map frame_size fs)]"
    by auto
next
  fix h fs s invs s'
  assume "(invs, s') = fire h s"
  then have p: "fire h s = (invs, s')" by simp
  have "flags_left s' < flags_left s \<or> (flags_left s' = flags_left s \<and> invs = [])"
    using p
    by (auto simp: flags_left_def fire_def timer_callback_def emitError_def emit_def
          clearTimeout_def Let_def split: if_splits)
  then show "((Notify invs # fs, s'), Fire h # fs, s)
        \<in> measures [\<lambda>(fs, s). flags_left s, \<lambda>(fs, s). sum_list (map frame_size fs)]"
    by auto
qed (auto simp: invoked_def flags_left_def split: prod.splits)

subsection \<open>Logs and invariants\<close>

text \<open>The emissions of \<^verbatim>\<open>success\<close> and \<^verbatim>\<open>error\<close> in an emission log.\<close>

definition resolutions :: "(string \<times> val list) list \<Rightarrow> (string \<times> val list) list" where
  "resolutions log = filter (\<lambda>e. fst e = ''success'' \<or> fst e = ''error'') log"

text \<open>The flag \<open>hasFired\<close> counts the emissions of \<^verbatim>\<open>success\<close> and \<^verbatim>\<open>error\<close>.\<close>

definition fired_once :: "pstate \<Rightarrow> bool" where
  "fired_once s = (length (resolutions (emitted s)) = (if hasFired s then 1 else 0))"

text \<open>
  The promise has at most one timer scheduled: the one whose handle it stores, with the
  recorded delay. The host's handles are positive.
\<close>

definition timers_ok :: "pstate \<Rightarrow> bool" where
  "timers_ok s =
     (0 < next_handle s \<and>
      (case timer s of
         None \<Rightarrow> pending s = []
       | Some h \<Rightarrow> 0 < h \<and> h < next_handle s \<and>
                  (pending s = [] \<or> pending s = [(h, timeoutDuration s)])))"

text \<open>The invocations of the listeners of one event in an invocation log.\<close>

definition received ::
  "string \<Rightarrow> (nat \<times> string \<times> val list) list \<Rightarrow> (nat \<times> string \<times> val list) list" where
  "received name log = filter (\<lambda>d. fst (snd d) = name) log"

text \<open>The invocations a frame has still to make, as they will appear in the log.\<close>

fun awaited :: "frame \<Rightarrow> (nat \<times> string \<times> val list) list" where
  "awaited (Notify invs) = map (\<lambda>i. (lid (fst i), snd i)) invs"
| "awaited f = []"

text \<open>
  No further emission of the event can happen: the guard of the method that emits it is
  closed.
\<close>

definition settled :: "string \<Rightarrow> pstate \<Rightarrow> bool" where
  "settled name s =
     (if name = ''cancel'' then cancelled s
      else if name = ''success'' \<or> name = ''error'' then hasFired s
      else True)"





section \<open>Properties\<close>

subsection \<open>Running frames\<close>

lemmas method_defs =
  addCallback_def addErrback_def addCancelback_def addListener_def removeListener_def
  emitSuccess_def emitError_def emitCancel_def cancel_def emit_def timeout_def
  setTimeout_def clearTimeout_def timer_callback_def fire_def invoked_def

lemma exec_append: "exec (fs @ gs) s = exec gs (exec fs s)"
  by (induction fs s rule: exec.induct) (auto split: prod.splits)

lemma exec_invariant:
  assumes call: "\<And>c s. I s \<Longrightarrow> I (snd (perform c s))"
    and timer: "\<And>h s. I s \<Longrightarrow> I (snd (fire h s))"
    and listener: "\<And>i s. I s \<Longrightarrow> I (invoked i s)"
    and start: "I s"
  shows "I (exec fs s)"
  using start
proof (induction fs s rule: exec.induct)
  case (3 c cs fs s)
  show ?case
  proof (cases "is_throw c")
    case True
    with 3 show ?thesis by simp
  next
    case False
    obtain invs s' where p: "perform c s = (invs, s')" by (cases "perform c s")
    from call [OF "3.prems", of c] p have "I s'" by simp
    with 3 False p show ?thesis by simp
  qed
next
  case (5 i invs fs s)
  then show ?case by (simp add: listener)
next
  case (6 h fs s)
  obtain invs s' where p: "fire h s = (invs, s')" by (cases "fire h s")
  from timer [OF "6.prems", of h] p have "I s'" by simp
  with 6 p show ?case by simp
qed simp_all

lemma perform_fired_once: "fired_once s \<Longrightarrow> fired_once (snd (perform c s))"
  by (cases c) (auto simp: fired_once_def resolutions_def method_defs Let_def split: option.splits)

lemma fire_fired_once: "fired_once s \<Longrightarrow> fired_once (snd (fire h s))"
  by (auto simp: fired_once_def resolutions_def method_defs Let_def)

lemma exec_fired_once: "fired_once s \<Longrightarrow> fired_once (exec fs s)"
  by (rule exec_invariant [where I = fired_once])
     (simp_all add: perform_fired_once fire_fired_once, simp add: fired_once_def invoked_def)

lemma perform_hasFired: "hasFired s \<Longrightarrow> hasFired (snd (perform c s))"
  by (cases c) (auto simp: method_defs Let_def split: option.splits)

lemma fire_hasFired: "hasFired s \<Longrightarrow> hasFired (snd (fire h s))"
  by (auto simp: method_defs Let_def)

lemma exec_hasFired: "hasFired s \<Longrightarrow> hasFired (exec fs s)"
  by (rule exec_invariant [where I = hasFired])
     (simp_all add: perform_hasFired fire_hasFired, simp add: invoked_def)

lemma perform_cancelled: "cancelled s \<Longrightarrow> cancelled (snd (perform c s))"
  by (cases c) (auto simp: method_defs Let_def split: option.splits)

lemma fire_cancelled: "cancelled s \<Longrightarrow> cancelled (snd (fire h s))"
  by (auto simp: method_defs Let_def)

lemma exec_cancelled: "cancelled s \<Longrightarrow> cancelled (exec fs s)"
  by (rule exec_invariant [where I = cancelled])
     (simp_all add: perform_cancelled fire_cancelled, simp add: invoked_def)

lemma perform_timers_ok: "timers_ok s \<Longrightarrow> timers_ok (snd (perform c s))"
  by (cases c) (auto simp: timers_ok_def method_defs Let_def split: option.splits)

lemma fire_timers_ok: "timers_ok s \<Longrightarrow> timers_ok (snd (fire h s))"
  by (auto simp: timers_ok_def method_defs Let_def split: option.splits)

lemma exec_timers_ok: "timers_ok s \<Longrightarrow> timers_ok (exec fs s)"
  by (rule exec_invariant [where I = timers_ok])
     (simp_all add: perform_timers_ok fire_timers_ok, simp add: timers_ok_def invoked_def split: option.splits)

lemma timers_ok_Promise: "timers_ok Promise"
  by (simp add: timers_ok_def Promise_def)

lemma timeout_delay_eq:
  assumes "timers_ok s" and "delay \<noteq> Undefined"
  shows "timeout delay s =
           (This, s\<lparr> timeoutDuration := delay, timer := Some (next_handle s),
                     pending := [(next_handle s, delay)],
                     next_handle := Suc (next_handle s) \<rparr>)"
  using assms
  by (auto simp: timers_ok_def method_defs Let_def split: option.splits)

lemma received_append [simp]: "received name (xs @ ys) = received name xs @ received name ys"
  by (simp add: received_def)

lemma received_Cons [simp]:
  "received name (d # ds) = (if fst (snd d) = name then d # received name ds else received name ds)"
  by (simp add: received_def)

lemma received_Nil [simp]: "received name [] = []"
  by (simp add: received_def)

lemma perform_settled:
  assumes "settled name s"
  shows "settled name (snd (perform c s)) \<and> received name (map (\<lambda>i. (lid (fst i), snd i)) (fst (perform c s))) = []"
  using assms
  by (cases c) (auto simp: settled_def received_def method_defs Let_def filter_empty_conv split: option.splits if_splits)

lemma fire_settled:
  assumes "settled name s"
  shows "settled name (snd (fire h s)) \<and> received name (map (\<lambda>i. (lid (fst i), snd i)) (fst (fire h s))) = []"
  using assms
  by (auto simp: settled_def received_def method_defs Let_def filter_empty_conv split: option.splits if_splits)

lemma perform_delivered: "delivered (snd (perform c s)) = delivered s"
  by (cases c) (auto simp: method_defs Let_def split: option.splits)

lemma fire_delivered: "delivered (snd (fire h s)) = delivered s"
  by (auto simp: method_defs Let_def)

lemma exec_received:
  "settled name s \<Longrightarrow>
   received name (delivered (exec fs s)) =
     received name (delivered s) @ received name (concat (map awaited fs))"
proof (induction fs s rule: exec.induct)
  case (3 c cs fs s)
  show ?case
  proof (cases "is_throw c")
    case True
    with 3 show ?thesis by simp
  next
    case False
    obtain invs s' where p: "perform c s = (invs, s')" by (cases "perform c s")
    from perform_settled [OF "3.prems", of c] p
    have "settled name s'" and "received name (map (\<lambda>i. (lid (fst i), snd i)) invs) = []"
      by simp_all
    moreover have "delivered s' = delivered s" using perform_delivered [of c s] p by simp
    ultimately show ?thesis using 3 False p by simp
  qed
next
  case (5 i invs fs s)
  have "settled name (invoked i s)" using "5.prems" by (simp add: settled_def invoked_def)
  with 5 show ?case by (simp add: invoked_def)
next
  case (6 h fs s)
  obtain invs s' where p: "fire h s = (invs, s')" by (cases "fire h s")
  from fire_settled [OF "6.prems", of h] p
  have "settled name s'" and "received name (map (\<lambda>i. (lid (fst i), snd i)) invs) = []"
    by simp_all
  moreover have "delivered s' = delivered s" using fire_delivered [of h s] p by simp
  ultimately show ?case using 6 p by simp
qed simp_all

subsection \<open>Success and error fire at most once\<close>

lemma hasFired_after_emitSuccess: "hasFired (exec (Run (EmitSuccess a # cs) # gs) s)"
proof -
  obtain invs s' where p: "emitSuccess a s = (invs, s')" by (cases "emitSuccess a s")
  then have "hasFired s'" by (auto simp: emitSuccess_def emit_def split: if_splits)
  then have "hasFired (exec (Notify invs # Run cs # gs) s')" by (rule exec_hasFired)
  with p show ?thesis by simp
qed

lemma hasFired_after_emitError: "hasFired (exec (Run (EmitError a # cs) # gs) s)"
proof -
  obtain invs s' where p: "emitError a s = (invs, s')" by (cases "emitError a s")
  then have "hasFired s'" by (auto simp: emitError_def emit_def split: if_splits)
  then have "hasFired (exec (Notify invs # Run cs # gs) s')" by (rule exec_hasFired)
  with p show ?thesis by simp
qed

lemma fired_once_Promise: "fired_once Promise"
  by (simp add: fired_once_def resolutions_def Promise_def)

text \<open>
  Claim C1. Whatever is done with a new promise (calls of its methods by the caller or by
  listeners, in any number of turns, and timers firing), the emission log holds at most one
  emission of \<^verbatim>\<open>success\<close> or \<^verbatim>\<open>error\<close>. On a promise that has not fired, \<^verbatim>\<open>emitSuccess\<close> and
  \<^verbatim>\<open>emitError\<close> set \<open>hasFired\<close> and emit their event; on one that has fired, both return
  with nothing invoked and the state unchanged; and after a call of either, whatever
  happens next, a later call of either is such a no-op.
\<close>

theorem success_error_at_most_once:
  "length (resolutions (emitted (exec fs Promise))) \<le> 1
   \<and> (\<not> hasFired s \<longrightarrow>
        emitSuccess a s = emit ''success'' a (s\<lparr> hasFired := True \<rparr>)
        \<and> emitError a s = emit ''error'' a (s\<lparr> hasFired := True \<rparr>)
        \<and> hasFired (snd (emitSuccess a s)) \<and> hasFired (snd (emitError a s))
        \<and> emitted (snd (emitSuccess a s)) = emitted s @ [(''success'', a)]
        \<and> emitted (snd (emitError a s)) = emitted s @ [(''error'', a)])
   \<and> (hasFired s \<longrightarrow> emitSuccess a s = ([], s) \<and> emitError a s = ([], s))
   \<and> (let s1 = exec (Run [EmitSuccess a] # gs) s in
        emitSuccess b s1 = ([], s1) \<and> emitError b s1 = ([], s1))
   \<and> (let s2 = exec (Run [EmitError a] # gs) s in
        emitSuccess b s2 = ([], s2) \<and> emitError b s2 = ([], s2))"
proof -
  have "fired_once (exec fs Promise)"
    using fired_once_Promise by (rule exec_fired_once)
  then have count: "length (resolutions (emitted (exec fs Promise))) \<le> 1"
    by (simp add: fired_once_def split: if_splits)
  have first: "\<not> hasFired s \<longrightarrow>
        emitSuccess a s = emit ''success'' a (s\<lparr> hasFired := True \<rparr>)
        \<and> emitError a s = emit ''error'' a (s\<lparr> hasFired := True \<rparr>)
        \<and> hasFired (snd (emitSuccess a s)) \<and> hasFired (snd (emitError a s))
        \<and> emitted (snd (emitSuccess a s)) = emitted s @ [(''success'', a)]
        \<and> emitted (snd (emitError a s)) = emitted s @ [(''error'', a)]"
    by (simp add: emitSuccess_def emitError_def emit_def)
  have later: "hasFired s \<longrightarrow> emitSuccess a s = ([], s) \<and> emitError a s = ([], s)"
    by (simp add: emitSuccess_def emitError_def)
  have after_success: "let s1 = exec (Run [EmitSuccess a] # gs) s in
        emitSuccess b s1 = ([], s1) \<and> emitError b s1 = ([], s1)"
    using hasFired_after_emitSuccess [of a "[]" gs s]
    by (simp add: emitSuccess_def emitError_def Let_def)
  have after_error: "let s2 = exec (Run [EmitError a] # gs) s in
        emitSuccess b s2 = ([], s2) \<and> emitError b s2 = ([], s2)"
    using hasFired_after_emitError [of a "[]" gs s]
    by (simp add: emitSuccess_def emitError_def Let_def)
  from count first later after_success after_error show ?thesis by blast
qed

text \<open>
  The theorem at a new promise: \<^verbatim>\<open>emitSuccess(1)\<close> fires, \<^verbatim>\<open>emitError(2)\<close> after it does not.
\<close>

theorem success_error_at_most_once_witness:
  "\<not> hasFired Promise
   \<and> emitted (snd (emitSuccess [Num 1] Promise)) = [(''success'', [Num 1])]
   \<and> hasFired (snd (emitSuccess [Num 1] Promise))
   \<and> emitError [Num 2] (snd (emitSuccess [Num 1] Promise)) = ([], snd (emitSuccess [Num 1] Promise))
   \<and> length (resolutions (emitted (exec [Run [EmitSuccess [Num 1], EmitError [Num 2]]] Promise))) \<le> 1"
  using success_error_at_most_once
          [of "[Run [EmitSuccess [Num 1], EmitError [Num 2]]]" Promise "[Num 1]" "[]" "[]"]
        success_error_at_most_once
          [of "[]" "snd (emitSuccess [Num 1] Promise)" "[Num 2]" "[]" "[]"]
  by (simp add: Promise_def emitSuccess_def emit_def)

subsection \<open>Cancelling a promise that has fired\<close>

text \<open>
  Claim C2 says that \<^verbatim>\<open>cancel()\<close> after \<^verbatim>\<open>emitSuccess\<close> or \<^verbatim>\<open>emitError\<close> has fired emits
  nothing. The guard of \<^verbatim>\<open>cancel\<close> tests \<open>cancelled\<close> only: with a cancel listener
  registered, \<^verbatim>\<open>emitSuccess(1)\<close> followed by \<^verbatim>\<open>cancel()\<close> emits \<^verbatim>\<open>success\<close> and then
  \<^verbatim>\<open>cancel\<close>, and the cancel listener is invoked.
\<close>

theorem cancel_after_emitSuccess_emits_cancel:
  "emitted (exec [Run [AddCancelback (Listener 0 []), EmitSuccess [Num 1], Cancel]] Promise)
     = [(''success'', [Num 1]), (''cancel'', [])]
   \<and> delivered (exec [Run [AddCancelback (Listener 0 []), EmitSuccess [Num 1], Cancel]] Promise)
     = [(0, ''cancel'', [])]"
  by (simp add: Promise_def method_defs)

subsection \<open>Setting a timeout\<close>

lemma exec_fires_idle: "pending s = [] \<Longrightarrow> exec (map Fire hs) s = s"
  by (induction hs) (simp_all add: fire_def)

lemma exec_fires_one:
  assumes "pending s = [(h, d)]" and "\<not> hasFired s" and "\<not> cancelled s"
    and "listeners s ''error'' = [Listener n []]"
  shows "exec (map Fire hs) s =
           (if h \<in> set hs
            then s\<lparr> hasFired := True, timer := None, pending := [],
                    emitted := emitted s @ [(''error'', [ErrorObj ''timeout''])],
                    delivered := delivered s @ [(n, ''error'', [ErrorObj ''timeout''])] \<rparr>
            else s)"
  using assms
proof (induction hs)
  case Nil
  then show ?case by simp
next
  case (Cons k hs)
  show ?case
  proof (cases "k = h")
    case True
    let ?s' = "s\<lparr> hasFired := True, timer := None, pending := [],
                    emitted := emitted s @ [(''error'', [ErrorObj ''timeout''])] \<rparr>"
    have f: "fire k s = ([(Listener n [], ''error'', [ErrorObj ''timeout''])], ?s')"
      using Cons.prems True by (simp add: method_defs)
    have "exec (map Fire (k # hs)) s
            = exec (map Fire hs) (?s'\<lparr> delivered := delivered s @ [(n, ''error'', [ErrorObj ''timeout''])] \<rparr>)"
      using f by (simp add: invoked_def)
    also have "\<dots> = ?s'\<lparr> delivered := delivered s @ [(n, ''error'', [ErrorObj ''timeout''])] \<rparr>"
      by (rule exec_fires_idle) simp
    finally show ?thesis using True by simp
  next
    case False
    then have "fire k s = ([], s)" using Cons.prems by (simp add: fire_def)
    then have "exec (map Fire (k # hs)) s = exec (map Fire hs) s" by simp
    with Cons False show ?thesis by simp
  qed
qed

lemma timer_fires_eq:
  assumes "timers_ok s" and "h \<in> fst ` set (pending s)"
  shows "fire h s =
           (if \<not> hasFired s \<and> \<not> cancelled s
            then emitError [ErrorObj ''timeout''] (s\<lparr> pending := [], timer := None \<rparr>)
            else ([], s\<lparr> pending := [], timer := None \<rparr>))"
  using assms
  by (auto simp: timers_ok_def fire_def timer_callback_def clearTimeout_def Let_def
        split: option.splits)

text \<open>
  Claim C3. In every state a new promise can reach, \<^verbatim>\<open>timeout(delay)\<close> returns the promise,
  records the delay, and leaves exactly one timer scheduled: the new one, with that delay,
  whose handle the promise stores; any timer scheduled before is gone. When the host fires
  a scheduled timer, the queue and the stored handle are cleared, and \<^verbatim>\<open>emitError\<close> is
  called with the single argument \<^verbatim>\<open>new Error('timeout')\<close> if neither \<open>hasFired\<close> nor
  \<open>cancelled\<close> holds then, and nothing else happens otherwise; a handle that is not
  scheduled does nothing. After \<^verbatim>\<open>timeout(100)\<close> and \<^verbatim>\<open>timeout(50)\<close> on a new promise with an
  error listener, only the timer with delay 50 (handle 2) is scheduled, and however the
  host then fires the handles, the listener receives the timeout error once if handle 2 is
  among them and never otherwise.
\<close>

theorem timeout_reschedules:
  "(delay \<noteq> Undefined \<longrightarrow>
      timeout delay (exec fs Promise) =
        (This, (exec fs Promise)\<lparr> timeoutDuration := delay,
                 timer := Some (next_handle (exec fs Promise)),
                 pending := [(next_handle (exec fs Promise), delay)],
                 next_handle := Suc (next_handle (exec fs Promise)) \<rparr>))
   \<and> (h \<in> fst ` set (pending (exec fs Promise)) \<longrightarrow>
        fire h (exec fs Promise) =
          (if \<not> hasFired (exec fs Promise) \<and> \<not> cancelled (exec fs Promise)
           then emitError [ErrorObj ''timeout'']
                  ((exec fs Promise)\<lparr> pending := [], timer := None \<rparr>)
           else ([], (exec fs Promise)\<lparr> pending := [], timer := None \<rparr>)))
   \<and> (h \<notin> fst ` set (pending (exec fs Promise)) \<longrightarrow>
        fire h (exec fs Promise) = ([], exec fs Promise))
   \<and> pending (exec [Run [AddErrback (Listener n []), Timeout (Num 100), Timeout (Num 50)]]
                 Promise) = [(2, Num 50)]
   \<and> emitted (exec ([Run [AddErrback (Listener n []), Timeout (Num 100), Timeout (Num 50)]]
                      @ map Fire hs) Promise)
        = (if 2 \<in> set hs then [(''error'', [ErrorObj ''timeout''])] else [])
   \<and> delivered (exec ([Run [AddErrback (Listener n []), Timeout (Num 100), Timeout (Num 50)]]
                      @ map Fire hs) Promise)
        = (if 2 \<in> set hs then [(n, ''error'', [ErrorObj ''timeout''])] else [])"
proof -
  let ?s = "exec fs Promise"
  let ?two = "[Run [AddErrback (Listener n []), Timeout (Num 100), Timeout (Num 50)]]"
  have ok: "timers_ok ?s"
    using timers_ok_Promise by (rule exec_timers_ok)
  have setter: "delay \<noteq> Undefined \<longrightarrow>
      timeout delay ?s =
        (This, ?s\<lparr> timeoutDuration := delay, timer := Some (next_handle ?s),
                 pending := [(next_handle ?s, delay)], next_handle := Suc (next_handle ?s) \<rparr>)"
    using timeout_delay_eq [OF ok] by simp
  have fires: "h \<in> fst ` set (pending ?s) \<longrightarrow>
        fire h ?s =
          (if \<not> hasFired ?s \<and> \<not> cancelled ?s
           then emitError [ErrorObj ''timeout''] (?s\<lparr> pending := [], timer := None \<rparr>)
           else ([], ?s\<lparr> pending := [], timer := None \<rparr>))"
    using timer_fires_eq [OF ok] by simp
  have stale: "h \<notin> fst ` set (pending ?s) \<longrightarrow> fire h ?s = ([], ?s)"
    by (simp add: fire_def)
  let ?S = "\<lparr> hasFired = False, cancelled = False, timeoutDuration = Num 50, timer = Some 2,
        listeners = (\<lambda>name. [])(''error'' := [Listener n []]),
        pending = [(2, Num 50)], next_handle = 3, emitted = [], delivered = [] \<rparr>"
  have two: "exec ?two Promise = ?S"
    by (simp add: Promise_def method_defs)
  have run: "exec (?two @ map Fire hs) Promise = exec (map Fire hs) (exec ?two Promise)"
    by (rule exec_append)
  have after: "exec (map Fire hs) ?S =
      (if 2 \<in> set hs
       then ?S\<lparr> hasFired := True, timer := None, pending := [],
               emitted := emitted ?S @ [(''error'', [ErrorObj ''timeout''])],
               delivered := delivered ?S @ [(n, ''error'', [ErrorObj ''timeout''])] \<rparr>
       else ?S)"
    by (rule exec_fires_one [where d = "Num 50"]) simp_all
  have p: "pending (exec ?two Promise) = [(2, Num 50)]"
    unfolding two by simp
  have e: "emitted (exec (?two @ map Fire hs) Promise)
        = (if 2 \<in> set hs then [(''error'', [ErrorObj ''timeout''])] else [])"
    unfolding run two after by simp
  have d: "delivered (exec (?two @ map Fire hs) Promise)
        = (if 2 \<in> set hs then [(n, ''error'', [ErrorObj ''timeout''])] else [])"
    unfolding run two after by simp
  from setter fires stale p e d show ?thesis by blast
qed

text \<open>
  The theorem at a new promise: \<^verbatim>\<open>timeout(100)\<close> schedules timer 1, which emits the timeout
  error when it fires, and firing the handles 1 and 2 after the two calls of the scenario
  delivers one timeout error.
\<close>

theorem timeout_reschedules_witness:
  "Num 100 \<noteq> Undefined
   \<and> timeout (Num 100) Promise =
       (This, Promise\<lparr> timeoutDuration := Num 100, timer := Some 1,
                pending := [(1, Num 100)], next_handle := 2 \<rparr>)
   \<and> 1 \<notin> fst ` set (pending Promise)
   \<and> fire 1 Promise = ([], Promise)
   \<and> 1 \<in> fst ` set (pending (exec [Run [Timeout (Num 100)]] Promise))
   \<and> emitted (snd (fire 1 (exec [Run [Timeout (Num 100)]] Promise)))
        = [(''error'', [ErrorObj ''timeout''])]
   \<and> pending (snd (fire 1 (exec [Run [Timeout (Num 100)]] Promise))) = []
   \<and> timer (snd (fire 1 (exec [Run [Timeout (Num 100)]] Promise))) = None
   \<and> delivered (exec ([Run [AddErrback (Listener 7 []), Timeout (Num 100), Timeout (Num 50)]]
                      @ map Fire [1, 2]) Promise)
        = [(7, ''error'', [ErrorObj ''timeout''])]"
  using timeout_reschedules [of "Num 100" "[]" 1 7 "[1, 2]"]
        timeout_reschedules [of "Num 100" "[Run [Timeout (Num 100)]]" 1 7 "[]"]
  by (simp add: Promise_def method_defs)

subsection \<open>Reading the timeout\<close>

text \<open>
  Claim C7. \<^verbatim>\<open>timeout()\<close> without an argument returns the recorded \<open>timeoutDuration\<close> and
  leaves the whole state as it is. On a new promise it returns \<^verbatim>\<open>undefined\<close>; after
  \<^verbatim>\<open>timeout(delay)\<close> it returns that delay; and no other method, no listener invocation
  and no timer firing changes the recorded value.
\<close>

theorem timeout_accessor:
  "timeout Undefined s = (Value (timeoutDuration s), s)
   \<and> timeout Undefined Promise = (Value Undefined, Promise)
   \<and> (delay \<noteq> Undefined \<longrightarrow>
        timeout Undefined (snd (timeout delay s)) = (Value delay, snd (timeout delay s)))
   \<and> timeoutDuration (snd (addCallback l s)) = timeoutDuration s
   \<and> timeoutDuration (snd (addErrback l s)) = timeoutDuration s
   \<and> timeoutDuration (snd (addCancelback l s)) = timeoutDuration s
   \<and> timeoutDuration (snd (emitSuccess a s)) = timeoutDuration s
   \<and> timeoutDuration (snd (emitError a s)) = timeoutDuration s
   \<and> timeoutDuration (snd (cancel s)) = timeoutDuration s
   \<and> timeoutDuration (snd (fire h s)) = timeoutDuration s
   \<and> timeoutDuration (invoked i s) = timeoutDuration s"
proof -
  have getter: "timeout Undefined s = (Value (timeoutDuration s), s)" for s
    by (simp add: timeout_def)
  have fresh: "timeout Undefined Promise = (Value Undefined, Promise)"
    by (simp add: timeout_def Promise_def)
  have "delay \<noteq> Undefined \<longrightarrow> timeoutDuration (snd (timeout delay s)) = delay"
    by (simp add: timeout_def setTimeout_def clearTimeout_def Let_def split: option.splits)
  then have last: "delay \<noteq> Undefined \<longrightarrow>
        timeout Undefined (snd (timeout delay s)) = (Value delay, snd (timeout delay s))"
    by (simp add: getter)
  have others:
    "timeoutDuration (snd (addCallback l s)) = timeoutDuration s"
    "timeoutDuration (snd (addErrback l s)) = timeoutDuration s"
    "timeoutDuration (snd (addCancelback l s)) = timeoutDuration s"
    "timeoutDuration (snd (emitSuccess a s)) = timeoutDuration s"
    "timeoutDuration (snd (emitError a s)) = timeoutDuration s"
    "timeoutDuration (snd (cancel s)) = timeoutDuration s"
    "timeoutDuration (snd (fire h s)) = timeoutDuration s"
    "timeoutDuration (invoked i s) = timeoutDuration s"
    by (simp_all add: method_defs Let_def)
  from getter [of s] fresh last others show ?thesis by blast
qed

text \<open>The theorem at a new promise and the delay 250.\<close>

theorem timeout_accessor_witness:
  "Num 250 \<noteq> Undefined
   \<and> timeout Undefined (snd (timeout (Num 250) Promise))
       = (Value (Num 250), snd (timeout (Num 250) Promise))
   \<and> fst (timeout Undefined Promise) = Value Undefined"
  using timeout_accessor [of Promise "Num 250" "Listener 0 []" "[]" 0 "(Listener 0 [], [], [])"]
  by (simp add: Promise_def)

subsection \<open>A timer that fires late\<close>

lemma fire_when_settled:
  assumes "hasFired s \<or> cancelled s"
  shows "fire h s = ([], snd (fire h s))"
    and "emitted (snd (fire h s)) = emitted s"
    and "delivered (snd (fire h s)) = delivered s"
    and "hasFired (snd (fire h s)) \<or> cancelled (snd (fire h s))"
  using assms by (auto simp: fire_def timer_callback_def clearTimeout_def Let_def)

lemma exec_fires_when_settled:
  "hasFired s \<or> cancelled s \<Longrightarrow>
   emitted (exec (map Fire hs) s) = emitted s \<and> delivered (exec (map Fire hs) s) = delivered s"
proof (induction hs arbitrary: s)
  case Nil
  then show ?case by simp
next
  case (Cons h hs)
  from fire_when_settled [OF Cons.prems, of h]
  have f: "fire h s = ([], snd (fire h s))"
    and e: "emitted (snd (fire h s)) = emitted s"
    and d: "delivered (snd (fire h s)) = delivered s"
    and st: "hasFired (snd (fire h s)) \<or> cancelled (snd (fire h s))"
    by simp_all
  have "exec (map Fire (h # hs)) s = exec (Notify (fst (fire h s)) # map Fire hs) (snd (fire h s))"
    by (simp add: case_prod_unfold)
  also have "\<dots> = exec (map Fire hs) (snd (fire h s))"
    using f by (metis exec.simps(4) fst_conv)
  finally show ?case using Cons.IH [OF st] e d by simp
qed

text \<open>
  Claim C10. \<^verbatim>\<open>emitSuccess\<close>, \<^verbatim>\<open>emitError\<close> and \<^verbatim>\<open>cancel\<close> leave the timer queue and the
  stored handle as they are. When the promise has fired or was cancelled, the timer's
  callback only clears the stored handle, and whatever handles the host fires, nothing is
  emitted and no listener is invoked.
\<close>

theorem stale_timer_emits_nothing:
  "(hasFired s \<or> cancelled s \<longrightarrow>
      timer_callback s = ([], s\<lparr> timer := None \<rparr>)
      \<and> emitted (exec (map Fire hs) s) = emitted s
      \<and> delivered (exec (map Fire hs) s) = delivered s)
   \<and> pending (snd (emitSuccess a s)) = pending s \<and> timer (snd (emitSuccess a s)) = timer s
   \<and> pending (snd (emitError a s)) = pending s \<and> timer (snd (emitError a s)) = timer s
   \<and> pending (snd (cancel s)) = pending s \<and> timer (snd (cancel s)) = timer s"
proof -
  have cb: "hasFired s \<or> cancelled s \<longrightarrow> timer_callback s = ([], s\<lparr> timer := None \<rparr>)"
    by (auto simp: timer_callback_def Let_def)
  have keep:
    "pending (snd (emitSuccess a s)) = pending s" "timer (snd (emitSuccess a s)) = timer s"
    "pending (snd (emitError a s)) = pending s" "timer (snd (emitError a s)) = timer s"
    "pending (snd (cancel s)) = pending s" "timer (snd (cancel s)) = timer s"
    by (simp_all add: method_defs)
  from cb exec_fires_when_settled [of s hs] keep show ?thesis by blast
qed

text \<open>
  The theorem after \<^verbatim>\<open>timeout(10)\<close> and \<^verbatim>\<open>emitSuccess(1)\<close>, and after \<^verbatim>\<open>timeout(10)\<close> and
  \<^verbatim>\<open>cancel()\<close>: timer 1 is still scheduled, and firing it emits nothing more.
\<close>

theorem stale_timer_emits_nothing_witness:
  "hasFired (exec [Run [Timeout (Num 10), EmitSuccess [Num 1]]] Promise)
   \<and> pending (exec [Run [Timeout (Num 10), EmitSuccess [Num 1]]] Promise) = [(1, Num 10)]
   \<and> emitted (exec (map Fire [1]) (exec [Run [Timeout (Num 10), EmitSuccess [Num 1]]] Promise))
       = [(''success'', [Num 1])]
   \<and> cancelled (exec [Run [Timeout (Num 10), Cancel]] Promise)
   \<and> emitted (exec (map Fire [1]) (exec [Run [Timeout (Num 10), Cancel]] Promise))
       = [(''cancel'', [])]"
  using stale_timer_emits_nothing
          [of "exec [Run [Timeout (Num 10), EmitSuccess [Num 1]]] Promise" "[1]" "[]"]
        stale_timer_emits_nothing
          [of "exec [Run [Timeout (Num 10), Cancel]] Promise" "[1]" "[]"]
  by (simp add: Promise_def method_defs)

subsection \<open>Cancelling\<close>

lemma cancelled_after_cancel: "cancelled (exec (Run (Cancel # cs) # gs) s)"
proof -
  obtain invs s' where p: "cancel s = (invs, s')" by (cases "cancel s")
  then have "cancelled s'"
    by (auto simp: cancel_def emitCancel_def emit_def removeListener_def split: if_splits)
  then have "cancelled (exec (Notify invs # Run cs # gs) s')" by (rule exec_cancelled)
  with p show ?thesis by simp
qed

text \<open>
  Claim C4. On a promise that is not cancelled, \<^verbatim>\<open>cancel()\<close> sets \<open>cancelled\<close>, empties the
  listener lists of \<^verbatim>\<open>success\<close> and \<^verbatim>\<open>error\<close>, emits \<^verbatim>\<open>cancel\<close> without arguments, and invokes
  the cancel listeners in their order. On a cancelled promise it does nothing, so after a
  call of \<^verbatim>\<open>cancel()\<close>, whatever happens next, another call does nothing. \<^verbatim>\<open>cancel()\<close> never
  changes \<open>hasFired\<close>.
\<close>

theorem cancel_first_call_only:
  "(\<not> cancelled s \<longrightarrow>
      cancel s =
        (map (\<lambda>l. (l, ''cancel'', [])) (listeners s ''cancel''),
         s\<lparr> cancelled := True,
            listeners := (listeners s)(''success'' := [], ''error'' := []),
            emitted := emitted s @ [(''cancel'', [])] \<rparr>))
   \<and> (cancelled s \<longrightarrow> cancel s = ([], s))
   \<and> cancel (exec (Run [Cancel] # gs) s) = ([], exec (Run [Cancel] # gs) s)
   \<and> hasFired (snd (cancel s)) = hasFired s"
proof -
  have first: "\<not> cancelled s \<longrightarrow>
      cancel s =
        (map (\<lambda>l. (l, ''cancel'', [])) (listeners s ''cancel''),
         s\<lparr> cancelled := True,
            listeners := (listeners s)(''success'' := [], ''error'' := []),
            emitted := emitted s @ [(''cancel'', [])] \<rparr>)"
    by (simp add: cancel_def emitCancel_def emit_def removeListener_def)
  have again: "cancelled s \<longrightarrow> cancel s = ([], s)"
    by (simp add: cancel_def)
  have later: "cancel (exec (Run [Cancel] # gs) s) = ([], exec (Run [Cancel] # gs) s)"
    using cancelled_after_cancel [of "[]" gs s] by (simp add: cancel_def)
  have flag: "hasFired (snd (cancel s)) = hasFired s"
    by (simp add: cancel_def emitCancel_def emit_def removeListener_def)
  from first again later flag show ?thesis by blast
qed

text \<open>The theorem at a new promise with one success listener, cancelled twice.\<close>

theorem cancel_first_call_only_witness:
  "\<not> cancelled (snd (addCallback (Listener 1 []) Promise))
   \<and> listeners (snd (cancel (snd (addCallback (Listener 1 []) Promise)))) ''success'' = []
   \<and> cancelled (snd (cancel (snd (addCallback (Listener 1 []) Promise))))
   \<and> cancel (snd (cancel (snd (addCallback (Listener 1 []) Promise))))
       = ([], snd (cancel (snd (addCallback (Listener 1 []) Promise))))"
  using cancel_first_call_only [of "snd (addCallback (Listener 1 []) Promise)" "[]"]
        cancel_first_call_only [of "snd (cancel (snd (addCallback (Listener 1 []) Promise)))" "[]"]
  by (simp add: Promise_def addCallback_def addListener_def)

subsection \<open>Resolving after cancelling\<close>









subsection \<open>Listeners that throw\<close>

lemma throw_ends_frame:
  "exec (pre @ Run (cs1 @ Throw v # cs2) # fs) s = exec (pre @ Run cs1 # fs) s"
proof (induction "pre @ Run cs1 # fs" s arbitrary: pre cs1 rule: exec.induct)
  case (1 s)
  then show ?case by simp
next
  case (2 gs s)
  show ?case
  proof (cases pre)
    case Nil
    with 2 show ?thesis by simp
  next
    case (Cons f pre')
    with 2 show ?thesis by auto
  qed
next
  case (3 c cs gs s)
  obtain invs s' where p: "perform c s = (invs, s')" by (cases "perform c s")
  show ?case
  proof (cases pre)
    case Nil
    with "3.hyps"(3) have cs1: "cs1 = c # cs" and gs: "gs = fs" by simp_all
    show ?thesis
    proof (cases "is_throw c")
      case True
      with Nil cs1 show ?thesis by simp
    next
      case False
      have "exec ([Notify invs] @ Run (cs @ Throw v # cs2) # fs) s'
              = exec ([Notify invs] @ Run cs # fs) s'"
        by (rule "3.hyps"(2) [OF False p [symmetric]]) (simp add: gs)
      with Nil cs1 False p show ?thesis by simp
    qed
  next
    case (Cons f pre')
    with "3.hyps"(3) have f: "f = Run (c # cs)" and gs: "gs = pre' @ Run cs1 # fs" by simp_all
    show ?thesis
    proof (cases "is_throw c")
      case True
      from "3.hyps"(1) [OF True gs] Cons f True show ?thesis by simp
    next
      case False
      have "exec ((Notify invs # Run cs # pre') @ Run (cs1 @ Throw v # cs2) # fs) s'
              = exec ((Notify invs # Run cs # pre') @ Run cs1 # fs) s'"
        by (rule "3.hyps"(2) [OF False p [symmetric]]) (simp add: gs)
      with Cons f False p show ?thesis by simp
    qed
  qed
next
  case (4 gs s)
  then show ?case by (cases pre) auto
next
  case (5 i invs gs s)
  show ?case
  proof (cases pre)
    case Nil
    with 5 show ?thesis by simp
  next
    case (Cons f pre')
    with "5.hyps"(2) have f: "f = Notify (i # invs)" and gs: "gs = pre' @ Run cs1 # fs"
      by simp_all
    have "exec ((Run (body (fst i)) # Notify invs # pre') @ Run (cs1 @ Throw v # cs2) # fs)
               (invoked i s)
            = exec ((Run (body (fst i)) # Notify invs # pre') @ Run cs1 # fs) (invoked i s)"
      by (rule "5.hyps"(1)) (simp add: gs)
    with Cons f show ?thesis by simp
  qed
next
  case (6 h gs s)
  obtain invs s' where p: "fire h s = (invs, s')" by (cases "fire h s")
  show ?case
  proof (cases pre)
    case Nil
    with 6 show ?thesis by simp
  next
    case (Cons f pre')
    with "6.hyps"(2) have f: "f = Fire h" and gs: "gs = pre' @ Run cs1 # fs" by simp_all
    have "exec ((Notify invs # pre') @ Run (cs1 @ Throw v # cs2) # fs) s'
            = exec ((Notify invs # pre') @ Run cs1 # fs) s'"
      by (rule "6.hyps"(1) [OF p [symmetric]]) (simp add: gs)
    with Cons f p show ?thesis by simp
  qed
qed


lemma received_same:
  "received name (map (\<lambda>l. (lid l, name, a)) ls) = map (\<lambda>l. (lid l, name, a)) ls"
  by (induction ls) simp_all

lemma emission_received:
  assumes "settled name s"
  shows "received name (delivered (exec (Notify (map (\<lambda>l. (l, name, a)) ls) # fs) s))
           = received name (delivered s) @ map (\<lambda>l. (lid l, name, a)) ls
               @ received name (concat (map awaited fs))"
proof -
  have "map (\<lambda>i. (lid (fst i), snd i)) (map (\<lambda>l. (l, name, a)) ls)
          = map (\<lambda>l. (lid l, name, a)) ls"
    by simp
  then show ?thesis
    using exec_received [OF assms, of "Notify (map (\<lambda>l. (l, name, a)) ls) # fs"]
    by (simp add: received_same comp_def)
qed

lemma emitSuccess_invokes_all:
  assumes "\<not> hasFired s"
  shows "hasFired (exec [Run [EmitSuccess a]] s)"
    and "received ''success'' (delivered (exec [Run [EmitSuccess a]] s))
           = received ''success'' (delivered s)
               @ map (\<lambda>l. (lid l, ''success'', a)) (listeners s ''success'')"
proof -
  let ?s' = "s\<lparr> hasFired := True, emitted := emitted s @ [(''success'', a)] \<rparr>"
  have run: "exec [Run [EmitSuccess a]] s
               = exec [Notify (map (\<lambda>l. (l, ''success'', a)) (listeners s ''success'')), Run []] ?s'"
    using assms by (simp add: emitSuccess_def emit_def)
  have "hasFired ?s'" by simp
  then show "hasFired (exec [Run [EmitSuccess a]] s)"
    unfolding run by (rule exec_hasFired)
  have "settled ''success'' ?s'" by (simp add: settled_def)
  from emission_received [OF this, of a "listeners s ''success''" "[Run []]"]
  show "received ''success'' (delivered (exec [Run [EmitSuccess a]] s))
           = received ''success'' (delivered s)
               @ map (\<lambda>l. (lid l, ''success'', a)) (listeners s ''success'')"
    unfolding run by simp
qed

lemma emitError_invokes_all:
  assumes "\<not> hasFired s"
  shows "hasFired (exec [Run [EmitError a]] s)"
    and "received ''error'' (delivered (exec [Run [EmitError a]] s))
           = received ''error'' (delivered s)
               @ map (\<lambda>l. (lid l, ''error'', a)) (listeners s ''error'')"
proof -
  let ?s' = "s\<lparr> hasFired := True, emitted := emitted s @ [(''error'', a)] \<rparr>"
  have run: "exec [Run [EmitError a]] s
               = exec [Notify (map (\<lambda>l. (l, ''error'', a)) (listeners s ''error'')), Run []] ?s'"
    using assms by (simp add: emitError_def emit_def)
  have "hasFired ?s'" by simp
  then show "hasFired (exec [Run [EmitError a]] s)"
    unfolding run by (rule exec_hasFired)
  have "settled ''error'' ?s'" by (simp add: settled_def)
  from emission_received [OF this, of a "listeners s ''error''" "[Run []]"]
  show "received ''error'' (delivered (exec [Run [EmitError a]] s))
           = received ''error'' (delivered s)
               @ map (\<lambda>l. (lid l, ''error'', a)) (listeners s ''error'')"
    unfolding run by simp
qed

lemma cancel_invokes_all:
  assumes "\<not> cancelled s"
  shows "cancelled (exec [Run [Cancel]] s)"
    and "received ''cancel'' (delivered (exec [Run [Cancel]] s))
           = received ''cancel'' (delivered s)
               @ map (\<lambda>l. (lid l, ''cancel'', [])) (listeners s ''cancel'')"
proof -
  let ?s' = "s\<lparr> cancelled := True,
                listeners := (listeners s)(''success'' := [], ''error'' := []),
                emitted := emitted s @ [(''cancel'', [])] \<rparr>"
  have run: "exec [Run [Cancel]] s
               = exec [Notify (map (\<lambda>l. (l, ''cancel'', [])) (listeners s ''cancel'')), Run []] ?s'"
    using assms by (simp add: cancel_def emitCancel_def emit_def removeListener_def)
  have "cancelled ?s'" by simp
  then show "cancelled (exec [Run [Cancel]] s)"
    unfolding run by (rule exec_cancelled)
  have "settled ''cancel'' ?s'" by (simp add: settled_def)
  from emission_received [OF this, of "[]" "listeners s ''cancel''" "[Run []]"]
  show "received ''cancel'' (delivered (exec [Run [Cancel]] s))
           = received ''cancel'' (delivered s)
               @ map (\<lambda>l. (lid l, ''cancel'', [])) (listeners s ''cancel'')"
    unfolding run by simp
qed

text \<open>
  Claim C8. A listener that throws after some calls acts on the promise like a listener
  that returns after those calls: the frames around it, with the listeners still to be
  invoked, run from the same state either way. So, whatever the listeners do and whichever
  of them throw, an emission of \<^verbatim>\<open>success\<close>, \<^verbatim>\<open>error\<close> or \<^verbatim>\<open>cancel\<close> leaves the flag it has
  set, and invokes every listener that was registered for the event, in registration
  order, with the event's arguments.
\<close>

theorem throwing_listener_is_isolated:
  "exec (pre @ Run (cs1 @ Throw v # cs2) # fs) s = exec (pre @ Run cs1 # fs) s
   \<and> (\<not> hasFired s \<longrightarrow>
        hasFired (exec [Run [EmitSuccess a]] s)
        \<and> received ''success'' (delivered (exec [Run [EmitSuccess a]] s))
            = received ''success'' (delivered s)
                @ map (\<lambda>l. (lid l, ''success'', a)) (listeners s ''success'')
        \<and> hasFired (exec [Run [EmitError a]] s)
        \<and> received ''error'' (delivered (exec [Run [EmitError a]] s))
            = received ''error'' (delivered s)
                @ map (\<lambda>l. (lid l, ''error'', a)) (listeners s ''error''))
   \<and> (\<not> cancelled s \<longrightarrow>
        cancelled (exec [Run [Cancel]] s)
        \<and> received ''cancel'' (delivered (exec [Run [Cancel]] s))
            = received ''cancel'' (delivered s)
                @ map (\<lambda>l. (lid l, ''cancel'', [])) (listeners s ''cancel''))"
  using throw_ends_frame [of pre cs1 v cs2 fs s]
    emitSuccess_invokes_all [of s a] emitError_invokes_all [of s a] cancel_invokes_all [of s]
  by blast

text \<open>
  The theorem at a promise with two success listeners, the first of which throws at once:
  both are invoked, \<open>hasFired\<close> is set, and the \<^verbatim>\<open>cancel()\<close> after the \<^verbatim>\<open>throw\<close> never runs.
  Likewise at a promise with two cancel listeners, the first of which throws.
\<close>

theorem throwing_listener_is_isolated_witness:
  "\<not> hasFired (snd (addCallback (Listener 2 [])
                   (snd (addCallback (Listener 1 [Throw (Str ''boom''), Cancel]) Promise))))
   \<and> hasFired (exec [Run [EmitSuccess [Num 1]]]
        (snd (addCallback (Listener 2 [])
               (snd (addCallback (Listener 1 [Throw (Str ''boom''), Cancel]) Promise)))))
   \<and> received ''success'' (delivered (exec [Run [EmitSuccess [Num 1]]]
        (snd (addCallback (Listener 2 [])
               (snd (addCallback (Listener 1 [Throw (Str ''boom''), Cancel]) Promise))))))
       = [(1, ''success'', [Num 1]), (2, ''success'', [Num 1])]
   \<and> \<not> cancelled (exec [Run [EmitSuccess [Num 1]]]
        (snd (addCallback (Listener 2 [])
               (snd (addCallback (Listener 1 [Throw (Str ''boom''), Cancel]) Promise)))))
   \<and> \<not> cancelled (snd (addCancelback (Listener 4 [])
                   (snd (addCancelback (Listener 3 [Throw (Str ''boom'')]) Promise))))
   \<and> cancelled (exec [Run [Cancel]]
        (snd (addCancelback (Listener 4 [])
               (snd (addCancelback (Listener 3 [Throw (Str ''boom'')]) Promise)))))
   \<and> received ''cancel'' (delivered (exec [Run [Cancel]]
        (snd (addCancelback (Listener 4 [])
               (snd (addCancelback (Listener 3 [Throw (Str ''boom'')]) Promise))))))
       = [(3, ''cancel'', []), (4, ''cancel'', [])]"
  using throwing_listener_is_isolated
          [of "[]" "[]" "Str ''boom''" "[]" "[]"
              "snd (addCallback (Listener 2 [])
                     (snd (addCallback (Listener 1 [Throw (Str ''boom''), Cancel]) Promise)))"
              "[Num 1]"]
        throwing_listener_is_isolated
          [of "[]" "[]" "Str ''boom''" "[]" "[]"
              "snd (addCancelback (Listener 4 [])
                     (snd (addCancelback (Listener 3 [Throw (Str ''boom'')]) Promise)))"
              "[]"]
  by (simp add: Promise_def method_defs)

subsection \<open>Registering listeners\<close>

text \<open>
  Claim C6. \<^verbatim>\<open>addCallback\<close>, \<^verbatim>\<open>addErrback\<close> and \<^verbatim>\<open>addCancelback\<close> return the promise and
  append the listener to the list of their event, changing nothing else. After two
  success listeners are registered on a new promise, \<^verbatim>\<open>emitSuccess(42)\<close> invokes the first
  and then the second, each with 42, and no success listener otherwise, whatever the two
  listeners do; when they do nothing, these are the only invocations.
\<close>

theorem add_callbacks_chain_and_accumulate:
  "addCallback l s = (This, s\<lparr> listeners := (listeners s)(''success'' := listeners s ''success'' @ [l]) \<rparr>)
   \<and> addErrback l s = (This, s\<lparr> listeners := (listeners s)(''error'' := listeners s ''error'' @ [l]) \<rparr>)
   \<and> addCancelback l s = (This, s\<lparr> listeners := (listeners s)(''cancel'' := listeners s ''cancel'' @ [l]) \<rparr>)
   \<and> received ''success''
        (delivered (exec [Run [AddCallback l1, AddCallback l2, EmitSuccess [Num 42]]] Promise))
       = [(lid l1, ''success'', [Num 42]), (lid l2, ''success'', [Num 42])]
   \<and> delivered (exec [Run [AddCallback (Listener n1 []), AddCallback (Listener n2 []),
                           EmitSuccess [Num 42]]] Promise)
       = [(n1, ''success'', [Num 42]), (n2, ''success'', [Num 42])]"
proof -
  have adds:
    "addCallback l s = (This, s\<lparr> listeners := (listeners s)(''success'' := listeners s ''success'' @ [l]) \<rparr>)"
    "addErrback l s = (This, s\<lparr> listeners := (listeners s)(''error'' := listeners s ''error'' @ [l]) \<rparr>)"
    "addCancelback l s = (This, s\<lparr> listeners := (listeners s)(''cancel'' := listeners s ''cancel'' @ [l]) \<rparr>)"
    by (simp_all add: addCallback_def addErrback_def addCancelback_def addListener_def)
  let ?s = "snd (addCallback l2 (snd (addCallback l1 Promise)))"
  have split: "exec [Run [AddCallback l1, AddCallback l2, EmitSuccess [Num 42]]] Promise
                 = exec [Run [EmitSuccess [Num 42]]] ?s"
    by simp
  have "\<not> hasFired ?s" "delivered ?s = []" "listeners ?s ''success'' = [l1, l2]"
    by (simp_all add: Promise_def addCallback_def addListener_def)
  with emitSuccess_invokes_all(2) [of ?s "[Num 42]"]
  have both: "received ''success''
        (delivered (exec [Run [AddCallback l1, AddCallback l2, EmitSuccess [Num 42]]] Promise))
       = [(lid l1, ''success'', [Num 42]), (lid l2, ''success'', [Num 42])]"
    unfolding split by simp
  have plain: "delivered (exec [Run [AddCallback (Listener n1 []), AddCallback (Listener n2 []),
                           EmitSuccess [Num 42]]] Promise)
       = [(n1, ''success'', [Num 42]), (n2, ''success'', [Num 42])]"
    by (simp add: Promise_def method_defs)
  from adds both plain show ?thesis by blast
qed

text \<open>The theorem at a new promise and two listeners that call nothing.\<close>

theorem add_callbacks_chain_and_accumulate_witness:
  "fst (addCallback (Listener 1 []) Promise) = This
   \<and> listeners (snd (addCallback (Listener 2 []) (snd (addCallback (Listener 1 []) Promise))))
        ''success'' = [Listener 1 [], Listener 2 []]
   \<and> delivered (exec [Run [AddCallback (Listener 1 []), AddCallback (Listener 2 []),
                           EmitSuccess [Num 42]]] Promise)
       = [(1, ''success'', [Num 42]), (2, ''success'', [Num 42])]"
  using add_callbacks_chain_and_accumulate
          [of "Listener 1 []" Promise "Listener 1 []" "Listener 2 []" 1 2]
        add_callbacks_chain_and_accumulate
          [of "Listener 2 []" "snd (addCallback (Listener 1 []) Promise)"
              "Listener 1 []" "Listener 2 []" 1 2]
  by (simp add: Promise_def addCallback_def addListener_def)

subsection \<open>Re-entrant calls\<close>

lemma exec_resolutions_fixed:
  assumes "hasFired s"
  shows "resolutions (emitted (exec fs s)) = resolutions (emitted s)"
proof -
  let ?I = "\<lambda>s'. hasFired s' \<and> resolutions (emitted s') = resolutions (emitted s)"
  have "?I (exec fs s)"
  proof (rule exec_invariant [where I = ?I])
    show "?I (snd (perform c s'))" if "?I s'" for c s'
      using that
      by (cases c) (auto simp: resolutions_def method_defs Let_def split: option.splits)
    show "?I (snd (fire h s'))" if "?I s'" for h s'
      using that by (auto simp: resolutions_def method_defs Let_def)
    show "?I (invoked i s')" if "?I s'" for i s'
      using that by (simp add: invoked_def)
    show "?I s" using assms by simp
  qed
  then show ?thesis by simp
qed

text \<open>
  Claim C9. The state in which \<^verbatim>\<open>emitSuccess\<close> and \<^verbatim>\<open>emitError\<close> hand over to the listeners
  has \<open>hasFired\<close> set. A call of \<^verbatim>\<open>emitSuccess\<close> or \<^verbatim>\<open>emitError\<close> in a state with
  \<open>hasFired\<close>, such as a call made by a listener during the emission, does nothing: the
  machine goes on with the rest of the body. So when a promise that has not fired emits
  \<^verbatim>\<open>success\<close> or \<^verbatim>\<open>error\<close>, that emission is the only one of the two events that the run
  adds to the log, whatever the listeners and the later frames call.
\<close>

theorem reentrant_emit_is_noop:
  "hasFired (snd (emitSuccess a s)) \<and> hasFired (snd (emitError a s))
   \<and> (hasFired s \<longrightarrow>
        exec (Run (EmitSuccess b # cs) # fs) s = exec (Run cs # fs) s
        \<and> exec (Run (EmitError b # cs) # fs) s = exec (Run cs # fs) s)
   \<and> (\<not> hasFired s \<longrightarrow>
        resolutions (emitted (exec (Run [EmitSuccess a] # fs) s))
          = resolutions (emitted s) @ [(''success'', a)]
        \<and> resolutions (emitted (exec (Run [EmitError a] # fs) s))
          = resolutions (emitted s) @ [(''error'', a)])"
proof -
  have before: "hasFired (snd (emitSuccess a s))" "hasFired (snd (emitError a s))"
    by (simp_all add: emitSuccess_def emitError_def emit_def)
  have inner: "hasFired s \<longrightarrow>
        exec (Run (EmitSuccess b # cs) # fs) s = exec (Run cs # fs) s
        \<and> exec (Run (EmitError b # cs) # fs) s = exec (Run cs # fs) s"
    by (simp add: emitSuccess_def emitError_def)
  have outer: "resolutions (emitted (exec (Run [EmitSuccess a] # fs) s))
          = resolutions (emitted s) @ [(''success'', a)]"
     "resolutions (emitted (exec (Run [EmitError a] # fs) s))
          = resolutions (emitted s) @ [(''error'', a)]" if "\<not> hasFired s"
  proof -
    let ?s1 = "s\<lparr> hasFired := True, emitted := emitted s @ [(''success'', a)] \<rparr>"
    let ?s2 = "s\<lparr> hasFired := True, emitted := emitted s @ [(''error'', a)] \<rparr>"
    have e1: "exec (Run [EmitSuccess a] # fs) s
            = exec (Notify (map (\<lambda>l. (l, ''success'', a)) (listeners s ''success'')) # Run [] # fs) ?s1"
      using that by (simp add: emitSuccess_def emit_def)
    have r1: "resolutions (emitted (exec (Notify (map (\<lambda>l. (l, ''success'', a))
                 (listeners s ''success'')) # Run [] # fs) ?s1)) = resolutions (emitted ?s1)"
      by (rule exec_resolutions_fixed) simp
    show "resolutions (emitted (exec (Run [EmitSuccess a] # fs) s))
          = resolutions (emitted s) @ [(''success'', a)]"
      unfolding e1 r1 by (simp add: resolutions_def)
    have e2: "exec (Run [EmitError a] # fs) s
            = exec (Notify (map (\<lambda>l. (l, ''error'', a)) (listeners s ''error'')) # Run [] # fs) ?s2"
      using that by (simp add: emitError_def emit_def)
    have r2: "resolutions (emitted (exec (Notify (map (\<lambda>l. (l, ''error'', a))
                 (listeners s ''error'')) # Run [] # fs) ?s2)) = resolutions (emitted ?s2)"
      by (rule exec_resolutions_fixed) simp
    show "resolutions (emitted (exec (Run [EmitError a] # fs) s))
          = resolutions (emitted s) @ [(''error'', a)]"
      unfolding e2 r2 by (simp add: resolutions_def)
  qed
  from before inner outer show ?thesis by blast
qed

text \<open>
  The theorem at a promise whose success listener calls \<^verbatim>\<open>emitError(2)\<close> and
  \<^verbatim>\<open>emitSuccess(3)\<close>: \<^verbatim>\<open>emitSuccess(1)\<close> is the only emission.
\<close>

theorem reentrant_emit_is_noop_witness:
  "\<not> hasFired (snd (addCallback (Listener 1 [EmitError [Num 2], EmitSuccess [Num 3]]) Promise))
   \<and> emitted (exec [Run [EmitSuccess [Num 1]]]
        (snd (addCallback (Listener 1 [EmitError [Num 2], EmitSuccess [Num 3]]) Promise)))
       = [(''success'', [Num 1])]
   \<and> delivered (exec [Run [EmitSuccess [Num 1]]]
        (snd (addCallback (Listener 1 [EmitError [Num 2], EmitSuccess [Num 3]]) Promise)))
       = [(1, ''success'', [Num 1])]
   \<and> resolutions (emitted (exec [Run [EmitSuccess [Num 1]]]
        (snd (addCallback (Listener 1 [EmitError [Num 2], EmitSuccess [Num 3]]) Promise))))
       = [(''success'', [Num 1])]
   \<and> hasFired (snd (emitSuccess [Num 1] Promise))
   \<and> exec [Run [EmitError [Num 2], EmitSuccess [Num 3]]] (snd (emitSuccess [Num 1] Promise))
       = snd (emitSuccess [Num 1] Promise)"
  using reentrant_emit_is_noop
          [of "[Num 1]"
              "snd (addCallback (Listener 1 [EmitError [Num 2], EmitSuccess [Num 3]]) Promise)"
              "[]" "[]" "[]"]
        reentrant_emit_is_noop
          [of "[Num 1]" "snd (emitSuccess [Num 1] Promise)" "[Num 2]"
              "[EmitSuccess [Num 3]]" "[]"]
  by (simp add: Promise_def method_defs resolutions_def)

end
